theory Spec2Isabelle
  imports Main "HOL-Library.Word" "HOL-Library.Signed_Division" "HOL-Library.AList"
begin

section \<open>Data model of package gguf\<close>

text \<open>
  The Go package turns a flat list of named tensors into a tree that is walked by
  field name, by index, or materialised as a leaf array. Go's \<open>int\<close> and \<open>int64\<close> are
  64-bit two's complement here (\<open>64 word\<close>, read with \<open>sint\<close>), \<open>uint64\<close> is
  \<open>64 word\<close> read with \<open>unat\<close>, and a byte is \<open>8 word\<close>.
\<close>

type_synonym byte = "8 word"

text \<open>
  Errors are values. One constructor stands for each \<open>errors.Errorf\<close> call site of the
  package (carrying the arguments of its format string), for each error that the package
  propagates unchanged from the tensor source, and for each way the run time can stop
  the call.
\<close>

datatype io_error = EOF | StreamError string

datatype error =
    NoSuchField string "string set"
      \<comment> \<open>"no field named %q (in %v)": the name and the keys of the view\<close>
  | NoSuchIndex int
      \<comment> \<open>"no element at index %d"\<close>
  | MalformedIndex "string option"
      \<comment> \<open>\<open>None\<close>: "element in slice has no value";
          \<open>Some seg\<close>: "cannot build slice for key %d: %v", Atoi refused \<open>seg\<close>\<close>
  | EmptyLeaf
      \<comment> \<open>"empty leaf"\<close>
  | AmbiguousLeaf
      \<comment> \<open>"not a leaf"\<close>
  | OpenFailed string
      \<comment> \<open>the error of the underlying \<open>Reader()\<close>, propagated\<close>
  | ShortRead io_error
      \<comment> \<open>the error of \<open>io.CopyN\<close>, propagated\<close>
  | NotEnoughBytes int int
      \<comment> \<open>"not enough bytes written: got %d but want %d"\<close>
  | SizeMismatch "int list" int int int int
      \<comment> \<open>"mismatch between the axis (%v=%d elements) and the size of the buffer
          (%d/%d=%d elements)": axes, length, size, element width, size / width\<close>
  | PanicIndexOutOfRange
      \<comment> \<open>run-time panic: index out of range\<close>
  | PanicSliceLenOutOfRange
      \<comment> \<open>run-time panic of \<open>unsafe.Slice\<close> on a negative length\<close>
  | ReadOutsideBuffer
      \<comment> \<open>\<open>unsafe.Slice\<close> covering memory beyond the buffer (no check in Go)\<close>
  | FatalUnlockOfUnlockedMutex
      \<comment> \<open>run-time fatal error of \<open>sync.Mutex.Unlock\<close> on an unlocked mutex\<close>

text \<open>
  A byte stream as \<open>io.CopyN\<close> sees it: the bytes it delivers, and the error it returns
  once they are used up (\<open>None\<close> is a plain end of file).
\<close>

record io_Reader =
  bytes :: "byte list"
  fails :: "string option"

text \<open>
  The interface \<open>TensorInfo\<close> with the values its methods return. \<open>ti_Reader\<close> is the
  result of the container library's own \<open>Reader()\<close>, which \<open>tensorInfo.Reader\<close> wraps.
\<close>

record TensorInfo =
  Name :: string
  Size :: "64 word"
  Dimensions :: "64 word list"
  ti_Reader :: "string + io_Reader"

datatype keyValue =
  KeyValue (parent: "keyValue option") (name: string) (path: "string list") (info: TensorInfo)

record walkerStruct =
  walkerStruct_set :: "keyValue list"

text \<open>
  The Go map of \<open>walkerSlice\<close> is an association list with one pair for each key, in the
  order in which the keys were first stored. Only \<open>ToDataSlice\<close> makes a
  \<open>walkerSlice\<close>, and it stores through \<open>AList.update\<close>, which keeps one pair for a key.
\<close>

record walkerSlice =
  walkerSlice_set :: "(int \<times> keyValue list) list"

record walkerData =
  walkerData_set :: "keyValue list"

section \<open>Path entries and grouping\<close>

text \<open>
  \<open>kv.path[1:]\<close> panics (slice bounds out of range) on an empty path: \<open>None\<close>.
\<close>

definition child :: "keyValue \<Rightarrow> string \<Rightarrow> keyValue option" where
  "child kv nm =
     (case path kv of
        [] \<Rightarrow> None
      | _ # rest \<Rightarrow> Some (KeyValue (Some kv) nm rest (info kv)))"

fun fullPath :: "keyValue \<Rightarrow> string" where
  "fullPath (KeyValue p nm _ _) =
     (case p of None \<Rightarrow> [] | Some q \<Rightarrow> fullPath q) @ nm"

text \<open>The loop of \<open>selectChildren\<close>; \<open>None\<close> is a panic of \<open>child\<close>.\<close>

fun selectChildren_loop ::
  "keyValue list \<Rightarrow> string \<Rightarrow> keyValue list \<Rightarrow> keyValue list option" where
  "selectChildren_loop [] nm children = Some children"
| "selectChildren_loop (kv # rest) nm children =
     (if length (path kv) = 0 then selectChildren_loop rest nm children
      else if hd (path kv) \<noteq> nm then selectChildren_loop rest nm children
      else (case child kv nm of
              None \<Rightarrow> None
            | Some c \<Rightarrow> selectChildren_loop rest nm (children @ [c])))"

definition selectChildren :: "keyValue list \<Rightarrow> string \<Rightarrow> keyValue list option" where
  "selectChildren s nm = selectChildren_loop s nm []"

text \<open>
  \<open>keys\<close> collects the first segments in a Go map used as a set and returns its keys in
  no particular order (\<open>maps.Keys\<close>): a set of strings.
\<close>

fun keys_loop :: "keyValue list \<Rightarrow> string set \<Rightarrow> string set" where
  "keys_loop [] ks = ks"
| "keys_loop (kv # rest) ks =
     (let first = (if length (path kv) > 0 then hd (path kv) else [])
      in keys_loop rest (insert first ks))"

definition keys :: "keyValue list \<Rightarrow> string set" where
  "keys s = keys_loop s {}"

section \<open>The three shapes of a view\<close>

text \<open>Results are \<open>None\<close> for a panic, \<open>Some (Inl e)\<close> for an error, \<open>Some (Inr v)\<close> for a value.\<close>

definition Field :: "walkerStruct \<Rightarrow> string \<Rightarrow> (error + walkerData) option" where
  "Field w nm =
     (case selectChildren (walkerStruct_set w) nm of
        None \<Rightarrow> None
      | Some cs \<Rightarrow>
          if length cs = 0 then Some (Inl (NoSuchField nm (keys (walkerStruct_set w))))
          else Some (Inr \<lparr>walkerData_set = cs\<rparr>))"

definition TagName :: "walkerStruct \<Rightarrow> string" where
  "TagName w = ''gguf''"

definition Len :: "walkerSlice \<Rightarrow> int" where
  "Len w = int (length (walkerSlice_set w))"

definition Index :: "walkerSlice \<Rightarrow> int \<Rightarrow> error + walkerData" where
  "Index w i =
     (case map_of (walkerSlice_set w) i of
        None \<Rightarrow> Inl (NoSuchIndex i)
      | Some children \<Rightarrow> Inr \<lparr>walkerData_set = children\<rparr>)"

text \<open>
  \<open>strconv.Atoi\<close> belongs to Go's standard library, not to this package. It is
  modelled from its documentation: an optional sign \<open>+\<close> or \<open>-\<close>, then one or more
  decimal digits, the value within the range of a 64-bit \<open>int\<close>; anything else is an
  error (\<open>None\<close>).
\<close>

definition digit_val :: "char \<Rightarrow> int option" where
  "digit_val c =
     (let k = (of_char c :: int) in if 48 \<le> k \<and> k \<le> 57 then Some (k - 48) else None)"

fun parse_digits :: "string \<Rightarrow> int \<Rightarrow> int option" where
  "parse_digits [] n = Some n"
| "parse_digits (c # cs) n =
     (case digit_val c of None \<Rightarrow> None | Some d \<Rightarrow> parse_digits cs (n * 10 + d))"

definition Atoi :: "string \<Rightarrow> int option" where
  "Atoi s =
     (case s of
        [] \<Rightarrow> None
      | c # cs \<Rightarrow>
          (let ds = (if c = CHR ''-'' \<or> c = CHR ''+'' then cs else s) in
           if ds = [] then None
           else (case parse_digits ds 0 of
                   None \<Rightarrow> None
                 | Some n \<Rightarrow>
                     if c = CHR ''-''
                     then (if n \<le> 2 ^ 63 then Some (- n) else None)
                     else (if n < 2 ^ 63 then Some n else None))))"

text \<open>\<open>sl.set[i]\<close> of a missing key is the empty slice.\<close>

definition map_get :: "(int \<times> keyValue list) list \<Rightarrow> int \<Rightarrow> keyValue list" where
  "map_get m i = (case map_of m i of None \<Rightarrow> [] | Some xs \<Rightarrow> xs)"

fun ToDataSlice_loop ::
  "keyValue list \<Rightarrow> (int \<times> keyValue list) list \<Rightarrow> (error + walkerSlice) option" where
  "ToDataSlice_loop [] m = Some (Inr \<lparr>walkerSlice_set = m\<rparr>)"
| "ToDataSlice_loop (kv # rest) m =
     (if length (path kv) = 0 then Some (Inl (MalformedIndex None))
      else (let first = hd (path kv) in
            case Atoi first of
              None \<Rightarrow> Some (Inl (MalformedIndex (Some first)))
            | Some i \<Rightarrow>
                (case child kv first of
                   None \<Rightarrow> None
                 | Some c \<Rightarrow> ToDataSlice_loop rest (AList.update i (map_get m i @ [c]) m))))"

definition ToDataSlice :: "walkerData \<Rightarrow> (error + walkerSlice) option" where
  "ToDataSlice w = ToDataSlice_loop (walkerData_set w) []"

definition ToDataStruct :: "walkerData \<Rightarrow> error + walkerStruct" where
  "ToDataStruct w = Inr \<lparr>walkerStruct_set = walkerData_set w\<rparr>"

record arrayFuture =
  kv :: keyValue

definition ValueFuture :: "walkerData \<Rightarrow> error + arrayFuture" where
  "ValueFuture w =
     (if length (walkerData_set w) = 0 then Inl EmptyLeaf
      else if length (walkerData_set w) > 1 then Inl AmbiguousLeaf
      else Inr \<lparr>kv = hd (walkerData_set w)\<rparr>)"

section \<open>Leaf materialisation\<close>

text \<open>
  A \<open>float32\<close> is kept as the four bytes it occupies in memory, in memory order, so that
  neither the byte order of the machine nor floating-point arithmetic enters the model.
\<close>

datatype float32 = Float32 byte byte byte byte

record ArrayBridge =
  flat :: "float32 list"
  axes :: "int list"

text \<open>\<open>types.ArrayFloat32(flat, axes...)\<close> of the gx bindings: the array of these values and axes.\<close>

definition ArrayFloat32 :: "float32 list \<Rightarrow> int list \<Rightarrow> ArrayBridge" where
  "ArrayFloat32 fl ax = \<lparr>flat = fl, axes = ax\<rparr>"

text \<open>
  \<open>io.CopyN(&buf, r, n)\<close> of Go's standard library, from its documentation: it copies up
  to \<open>n\<close> bytes and returns the number copied and the earliest error; the error is nil
  exactly when \<open>n\<close> bytes were copied (or \<open>n\<close> is negative, where nothing is copied), and it
  is \<open>EOF\<close> when the stream ended early. The result is the buffer, the count and the
  error.
\<close>

definition CopyN :: "io_Reader \<Rightarrow> int \<Rightarrow> byte list \<times> int \<times> io_error option" where
  "CopyN src n =
     (let written = (if n \<le> 0 then [] else take (nat n) (bytes src));
          w = int (length written)
      in if w = n then (written, n, None)
         else if w < n
         then (written, w, Some (case fails src of None \<Rightarrow> EOF | Some e \<Rightarrow> StreamError e))
         else (written, w, None))"

text \<open>
  The loop over the dimensions: \<open>axes[len(dims)-1-i] = int(dim)\<close> and
  \<open>length *= int(dim)\<close>. The index \<open>i\<close> runs from 0, \<open>n\<close> is \<open>len(dims)\<close>; the
  product is a Go \<open>int\<close> and wraps around.
\<close>

fun dims_loop ::
  "64 word list \<Rightarrow> nat \<Rightarrow> nat \<Rightarrow> int list \<Rightarrow> 64 word \<Rightarrow> int list \<times> 64 word" where
  "dims_loop [] i n ax len = (ax, len)"
| "dims_loop (dim # rest) i n ax len =
     dims_loop rest (i + 1) n (ax[n - 1 - i := sint dim]) (len * dim)"

text \<open>
  \<open>unsafe.Slice((*float32)(ptr), len)\<close>: \<open>len\<close> values of four bytes each, read from
  the start of the buffer.
\<close>

fun float32s :: "nat \<Rightarrow> byte list \<Rightarrow> float32 list option" where
  "float32s 0 bs = Some []"
| "float32s (Suc k) (a # b # c # d # rest) =
     (case float32s k rest of None \<Rightarrow> None | Some fs \<Rightarrow> Some (Float32 a b c d # fs))"
| "float32s (Suc k) bs = None"

definition unsafe_Slice :: "byte list \<Rightarrow> int \<Rightarrow> error + float32 list" where
  "unsafe_Slice buf len =
     (if len < 0 then Inl PanicSliceLenOutOfRange
      else (case float32s (nat len) buf of
              None \<Rightarrow> Inl ReadOutsideBuffer
            | Some fs \<Rightarrow> Inr fs))"

text \<open>
  The body of \<open>arrayFuture.Value\<close> from \<open>io.CopyN\<close> to the return, on the stream \<open>r\<close>
  that \<open>Reader()\<close> gave.
\<close>

definition Value_read :: "TensorInfo \<Rightarrow> io_Reader \<Rightarrow> error + ArrayBridge" where
  "Value_read tensor r =
     (let size = sint (Size tensor) in
      case CopyN r size of
        (buf, n, err) \<Rightarrow>
          (case err of
             Some e \<Rightarrow> Inl (ShortRead e)
           | None \<Rightarrow>
               if n \<noteq> size then Inl (NotEnoughBytes n size)
               else
                 (let dims = Dimensions tensor in
                  case dims_loop dims 0 (length dims) (replicate (length dims) 0) 1 of
                    (ax, len) \<Rightarrow>
                      if sint len \<noteq> size sdiv 4
                      then Inl (SizeMismatch ax (sint len) size 4 (size sdiv 4))
                      else if buf = [] then Inl PanicIndexOutOfRange
                      else (case unsafe_Slice buf (sint len) of
                              Inl e \<Rightarrow> Inl e
                            | Inr fl \<Rightarrow> Inr (ArrayFloat32 fl ax)))))"

section \<open>The reader gate\<close>

text \<open>
  The decoder's \<open>sync.Mutex\<close> is a flag. \<open>Lock\<close> on a locked mutex does not return
  until another goroutine unlocks it: \<open>None\<close>. \<open>Unlock\<close> on an unlocked mutex is a fatal
  error of the run time.
\<close>

record decoder =
  locker :: bool

definition Lock :: "decoder \<Rightarrow> decoder option" where
  "Lock dec = (if locker dec then None else Some (dec\<lparr>locker := True\<rparr>))"

definition Unlock :: "decoder \<Rightarrow> error + decoder" where
  "Unlock dec =
     (if locker dec then Inr (dec\<lparr>locker := False\<rparr>) else Inl FatalUnlockOfUnlockedMutex)"

text \<open>
  \<open>tensorInfo.Reader\<close> and \<open>reader.Close\<close>, with the decoder passed in and returned.
  The handle \<open>&reader{dec, r}\<close> is the stream \<open>r\<close>.
\<close>

definition Reader :: "decoder \<Rightarrow> TensorInfo \<Rightarrow> ((error + io_Reader) \<times> decoder) option" where
  "Reader dec t =
     (case Lock dec of
        None \<Rightarrow> None
      | Some dec1 \<Rightarrow>
          (case ti_Reader t of
             Inl err \<Rightarrow>
               (case Unlock dec1 of
                  Inl fatal \<Rightarrow> Some (Inl fatal, dec1)
                | Inr dec2 \<Rightarrow> Some (Inl (OpenFailed err), dec2))
           | Inr r \<Rightarrow> Some (Inr r, dec1)))"

definition Close :: "decoder \<Rightarrow> error + decoder" where
  "Close dec = Unlock dec"

text \<open>
  \<open>arrayFuture.Value\<close>: open, \<open>defer r.Close()\<close>, read. The deferred call runs on every
  way out of the body, a panic included.
\<close>

definition Value :: "decoder \<Rightarrow> arrayFuture \<Rightarrow> ((error + ArrayBridge) \<times> decoder) option" where
  "Value dec pr =
     (let tensor = info (kv pr) in
      case Reader dec tensor of
        None \<Rightarrow> None
      | Some (Inl err, dec1) \<Rightarrow> Some (Inl err, dec1)
      | Some (Inr r, dec1) \<Rightarrow>
          (let res = Value_read tensor r in
           case Close dec1 of
             Inl fatal \<Rightarrow> Some (Inl fatal, dec1)
           | Inr dec2 \<Rightarrow> Some (res, dec2)))"

text \<open>
  Goroutines calling \<open>Value\<close> on tensors of one decoder, interleaved. The decoder is the
  one state they share. A goroutine is outside the gate (\<open>Idle\<close>) or between the return
  of \<open>tensorInfo.Reader\<close> with a handle and the deferred \<open>Close()\<close> (\<open>Holding\<close>: its
  stream is open; there it runs the body of \<open>Value\<close>, which touches nothing shared).
  A step is a call of \<open>Reader\<close> that returns, with a handle or with an error, or the
  deferred call of \<open>Close\<close>; a call of \<open>Reader\<close> that does not return (\<open>None\<close>) is no step,
  the goroutine waits. Between \<open>Lock()\<close> and its return \<open>Reader\<close> touches only the
  mutex it has just taken, so the call is one step.
\<close>

datatype pc = Idle | Holding

datatype event = Opened nat TensorInfo | Refused nat TensorInfo | Closed nat

record system =
  dec :: decoder
  pcs :: "pc list"

definition init :: "nat \<Rightarrow> system" where
  "init n = \<lparr>dec = \<lparr>locker = False\<rparr>, pcs = replicate n Idle\<rparr>"

inductive step :: "system \<Rightarrow> event \<Rightarrow> system \<Rightarrow> bool" where
  opened:
    "i < length (pcs s) \<Longrightarrow> pcs s ! i = Idle \<Longrightarrow> Reader (dec s) t = Some (Inr r, d) \<Longrightarrow>
     step s (Opened i t) (s\<lparr>dec := d, pcs := (pcs s)[i := Holding]\<rparr>)"
| refused:
    "i < length (pcs s) \<Longrightarrow> pcs s ! i = Idle \<Longrightarrow> Reader (dec s) t = Some (Inl e, d) \<Longrightarrow>
     step s (Refused i t) (s\<lparr>dec := d\<rparr>)"
| closed:
    "i < length (pcs s) \<Longrightarrow> pcs s ! i = Holding \<Longrightarrow> Close (dec s) = Inr d \<Longrightarrow>
     step s (Closed i) (s\<lparr>dec := d, pcs := (pcs s)[i := Idle]\<rparr>)"

code_pred step .

text \<open>The states a history of steps leads to, from \<open>n\<close> goroutines at a free gate.\<close>

inductive run :: "nat \<Rightarrow> event list \<Rightarrow> system \<Rightarrow> bool" where
  start: "run n [] (init n)"
| later: "run n tr s \<Longrightarrow> step s ev s' \<Longrightarrow> run n (tr @ [ev]) s'"

definition open_streams :: "system \<Rightarrow> nat" where
  "open_streams s = length (filter (\<lambda>p. p = Holding) (pcs s))"

text \<open>The handles a goroutine was given and the closes it made, in a history.\<close>

definition opens_of :: "nat \<Rightarrow> event list \<Rightarrow> nat" where
  "opens_of i tr =
     length (filter (\<lambda>ev. case ev of Opened j _ \<Rightarrow> j = i | _ \<Rightarrow> False) tr)"

definition closes_of :: "nat \<Rightarrow> event list \<Rightarrow> nat" where
  "closes_of i tr =
     length (filter (\<lambda>ev. case ev of Closed j \<Rightarrow> j = i | _ \<Rightarrow> False) tr)"

section \<open>Notions of the specification\<close>

text \<open>
  The next remaining segment of an entry, if it has one; the entry with its first segment
  consumed under a name; the distinct next segments of a set of entries; the index an
  entry's next segment stands for; the indices of a set of entries and the entries of one
  index.
\<close>

definition next_segment :: "keyValue \<Rightarrow> string option" where
  "next_segment e = (case path e of [] \<Rightarrow> None | p # _ \<Rightarrow> Some p)"

definition consume :: "keyValue \<Rightarrow> string \<Rightarrow> keyValue" where
  "consume e nm = KeyValue (Some e) nm (tl (path e)) (info e)"

definition segments_present :: "keyValue list \<Rightarrow> string set" where
  "segments_present s = set (List.map_filter next_segment s)"

definition index_of :: "keyValue \<Rightarrow> int option" where
  "index_of e = (case path e of [] \<Rightarrow> None | p # _ \<Rightarrow> Atoi p)"

definition indices :: "keyValue list \<Rightarrow> int set" where
  "indices s = set (List.map_filter index_of s)"

definition entries_at :: "keyValue list \<Rightarrow> int \<Rightarrow> keyValue list" where
  "entries_at s i = map (\<lambda>e. consume e (hd (path e))) (filter (\<lambda>e. index_of e = Some i) s)"

text \<open>A non-negative integer in base 10: one or more decimal digits.\<close>

definition is_nonneg_decimal :: "string \<Rightarrow> bool" where
  "is_nonneg_decimal s = (s \<noteq> [] \<and> list_all (\<lambda>c. digit_val c \<noteq> None) s)"

text \<open>The bytes of a list of \<open>float32\<close> values, in order.\<close>

fun float32_bytes :: "float32 \<Rightarrow> byte list" where
  "float32_bytes (Float32 a b c d) = [a, b, c, d]"

text \<open>
  The invariant of the gate: the mutex is held exactly when one stream is open, and each
  goroutine has closed every handle it was given but the one it holds.
\<close>

definition gate_inv :: "event list \<Rightarrow> system \<Rightarrow> bool" where
  "gate_inv tr s \<longleftrightarrow>
     open_streams s = (if locker (dec s) then 1 else 0)
     \<and> (\<forall>i < length (pcs s).
           opens_of i tr = closes_of i tr + (if pcs s ! i = Holding then 1 else 0))"

section \<open>Sample tensors\<close>

text \<open>
  A tensor of dimensions \<open>[3, 2]\<close> with 24 bytes, the same with 25 and with 20 bytes;
  two tensors of 4 bytes, one of dimensions 7 and \<open>(3 * 2^64 + 1) / 7\<close>, one whose
  dimensions are both \<open>2^64 - 1\<close>; a tensor whose stream cannot be opened and one
  whose stream ends early; and entries made of them.
\<close>

definition bytes24 :: "byte list" where
  "bytes24 =
     [1, 2, 3, 4, 5, 6, 7, 8, 9, 10, 11, 12, 13, 14, 15, 16, 17, 18, 19, 20, 21, 22, 23, 24]"

definition tensor24 :: TensorInfo where
  "tensor24 = \<lparr>Name = ''w'', Size = 24, Dimensions = [3, 2],
                ti_Reader = Inr \<lparr>bytes = bytes24, fails = None\<rparr>\<rparr>"

definition tensor25 :: TensorInfo where
  "tensor25 = \<lparr>Name = ''w'', Size = 25, Dimensions = [3, 2],
                ti_Reader = Inr \<lparr>bytes = bytes24 @ [25], fails = None\<rparr>\<rparr>"

definition tensor20 :: TensorInfo where
  "tensor20 = \<lparr>Name = ''w'', Size = 20, Dimensions = [3, 2],
                ti_Reader = Inr \<lparr>bytes = take 20 bytes24, fails = None\<rparr>\<rparr>"

definition tensor_wrap :: TensorInfo where
  "tensor_wrap =
     \<lparr>Name = ''w'', Size = 4, Dimensions = [7, 7905747460161236407],
      ti_Reader = Inr \<lparr>bytes = [1, 2, 3, 4], fails = None\<rparr>\<rparr>"

definition tensor_neg :: TensorInfo where
  "tensor_neg =
     \<lparr>Name = ''w'', Size = 4, Dimensions = [18446744073709551615, 18446744073709551615],
      ti_Reader = Inr \<lparr>bytes = [1, 2, 3, 4], fails = None\<rparr>\<rparr>"

definition tensor_closed :: TensorInfo where
  "tensor_closed = \<lparr>Name = ''w'', Size = 24, Dimensions = [3, 2],
                     ti_Reader = Inl ''file already closed''\<rparr>"

definition tensor_short :: TensorInfo where
  "tensor_short = \<lparr>Name = ''w'', Size = 24, Dimensions = [3, 2],
                    ti_Reader = Inr \<lparr>bytes = [1, 2, 3], fails = None\<rparr>\<rparr>"

definition entry :: "string list \<Rightarrow> TensorInfo \<Rightarrow> keyValue" where
  "entry p t = KeyValue None [] p t"

section \<open>Grouping by the next segment\<close>

lemma child_consume: "path e \<noteq> [] \<Longrightarrow> child e nm = Some (consume e nm)"
  by (cases "path e") (simp_all add: child_def consume_def)

lemma selectChildren_loop_eq:
  "selectChildren_loop s nm acc =
     Some (acc @ map (\<lambda>e. consume e nm) (filter (\<lambda>e. next_segment e = Some nm) s))"
proof (induction s arbitrary: acc)
  case Nil
  show ?case by simp
next
  case (Cons e s)
  show ?case
  proof (cases "path e")
    case Nil
    then show ?thesis using Cons.IH by (simp add: next_segment_def)
  next
    case (Cons p rest)
    then have ne: "path e \<noteq> []" by simp
    show ?thesis using Cons Cons.IH child_consume [OF ne]
      by (simp add: next_segment_def)
  qed
qed

text \<open>
  C5. \<open>selectChildren\<close> never panics and returns, in the order of the set, exactly the
  entries whose next remaining segment is the name, each with that segment consumed
  (its path is the tail, its tensor the same, its parent the entry it came from). The
  entries with no remaining segment contribute nothing to any named descent.
\<close>

theorem selectChildren_groups:
  "selectChildren s nm =
     Some (map (\<lambda>e. consume e nm) (filter (\<lambda>e. next_segment e = Some nm) s))
   \<and> selectChildren (filter (\<lambda>e. path e = []) s) nm = Some []"
proof -
  have "filter (\<lambda>e. next_segment e = Some nm) (filter (\<lambda>e. path e = []) s) = []"
    by (simp add: next_segment_def)
  then show ?thesis
    by (simp add: selectChildren_def selectChildren_loop_eq)
qed

section \<open>Field lookup\<close>

lemma keys_loop_eq:
  "keys_loop s ks = ks \<union> (\<lambda>e. case next_segment e of None \<Rightarrow> [] | Some p \<Rightarrow> p) ` set s"
  by (induction s arbitrary: ks) (auto simp: next_segment_def Let_def split: list.splits)

lemma segments_present_iff:
  "p \<in> segments_present s \<longleftrightarrow> (\<exists>e \<in> set s. next_segment e = Some p)"
  by (force simp: segments_present_def List.map_filter_def image_iff)

lemma keys_eq:
  "keys s = segments_present s \<union> (if filter (\<lambda>e. path e = []) s = [] then {} else {[]})"
proof -
  have a: "filter (\<lambda>e. path e = []) s = [] \<longleftrightarrow> (\<forall>e \<in> set s. next_segment e \<noteq> None)"
    by (auto simp: filter_empty_conv next_segment_def split: list.splits)
  show ?thesis
    unfolding keys_def keys_loop_eq
  proof (cases "filter (\<lambda>e. path e = []) s = []")
    case True
    then have "\<forall>e \<in> set s. next_segment e \<noteq> None" using a by simp
    then show "{} \<union> (\<lambda>e. case next_segment e of None \<Rightarrow> [] | Some p \<Rightarrow> p) ` set s =
        segments_present s \<union> (if filter (\<lambda>e. path e = []) s = [] then {} else {[]})"
      using True by (force simp: segments_present_iff image_iff split: option.splits)
  next
    case False
    then obtain e0 where "e0 \<in> set s" "next_segment e0 = None" using a by auto
    then show "{} \<union> (\<lambda>e. case next_segment e of None \<Rightarrow> [] | Some p \<Rightarrow> p) ` set s =
        segments_present s \<union> (if filter (\<lambda>e. path e = []) s = [] then {} else {[]})"
      using False by (force simp: segments_present_iff image_iff split: option.splits)
  qed
qed

lemmas walk_defs =
  next_segment_def index_of_def consume_def segments_present_def indices_def entries_at_def
  List.map_filter_def entry_def child_def selectChildren_def keys_def Let_def

text \<open>
  C6, as the code has it. When no entry of the view has the name as its next segment,
  \<open>Field\<close> fails with \<open>NoSuchField\<close>, and the message lists the distinct next segments
  of the view, together with the empty string when some entry of the view has no
  remaining segment.
\<close>

theorem Field_NoSuchField:
  assumes "nm \<notin> segments_present (walkerStruct_set w)"
  shows "Field w nm =
     Some (Inl (NoSuchField nm
       (segments_present (walkerStruct_set w)
        \<union> (if filter (\<lambda>e. path e = []) (walkerStruct_set w) = [] then {} else {[]}))))"
proof -
  have "filter (\<lambda>e. next_segment e = Some nm) (walkerStruct_set w) = []"
    using assms by (auto simp: filter_empty_conv segments_present_iff)
  then have "selectChildren (walkerStruct_set w) nm = Some []"
    by (simp add: selectChildren_def selectChildren_loop_eq)
  then show ?thesis
    by (simp add: Field_def keys_eq)
qed

theorem Field_NoSuchField_witness:
  "''c'' \<notin> segments_present [entry [''a'', ''w''] tensor24, entry [''b''] tensor24]
   \<and> Field \<lparr>walkerStruct_set = [entry [''a'', ''w''] tensor24, entry [''b''] tensor24]\<rparr> ''c'' =
       Some (Inl (NoSuchField ''c'' {''a'', ''b''}))"
proof -
  have h: "''c'' \<notin> segments_present
             (walkerStruct_set
               \<lparr>walkerStruct_set = [entry [''a'', ''w''] tensor24, entry [''b''] tensor24]\<rparr>)"
    by (simp add: walk_defs)
  show ?thesis
    using h Field_NoSuchField [OF h] by (simp add: walk_defs)
qed

text \<open>
  C6 as it is stated fails on a view of two entries, one with no remaining segment and
  one whose next segment is \<open>b\<close> (the view under \<open>x\<close> of the tensors \<open>x\<close> and \<open>x.b\<close>):
  the one next segment present is \<open>b\<close>, and the message lists two values, the empty
  string and \<open>b\<close>.
\<close>

theorem Field_NoSuchField_counterexample:
  "Field \<lparr>walkerStruct_set = [entry [] tensor24, entry [''b''] tensor24]\<rparr> ''a'' =
     Some (Inl (NoSuchField ''a'' {''b'', ''''}))
   \<and> segments_present [entry [] tensor24, entry [''b''] tensor24] = {''b''}"
  by (simp add: Field_def walk_defs)

section \<open>Struct shape and leaves\<close>

text \<open>
  C10. \<open>ToDataStruct\<close> returns the struct-shaped view over the same entries for every
  view, and never an error.
\<close>

theorem ToDataStruct_total:
  "ToDataStruct w = Inr \<lparr>walkerStruct_set = walkerData_set w\<rparr>"
  by (simp add: ToDataStruct_def)

text \<open>
  C3, as the code has it. \<open>ValueFuture\<close> fails with \<open>EmptyLeaf\<close> on an empty view and
  with \<open>AmbiguousLeaf\<close> on a view of more than one entry, and on a view of exactly one
  entry it returns the future of that entry, whatever segments the entry has left.
\<close>

theorem ValueFuture_cases:
  "ValueFuture w =
     (case walkerData_set w of
        [] \<Rightarrow> Inl EmptyLeaf
      | [e] \<Rightarrow> Inr \<lparr>kv = e\<rparr>
      | _ # _ # _ \<Rightarrow> Inl AmbiguousLeaf)"
  by (simp add: ValueFuture_def split: list.splits)

text \<open>
  C3 as it is stated fails on a view of one entry that still has the segment
  \<open>weight\<close> to consume: the call succeeds.
\<close>

theorem ValueFuture_counterexample:
  "path (entry [''weight''] tensor24) = [''weight'']
   \<and> ValueFuture \<lparr>walkerData_set = [entry [''weight''] tensor24]\<rparr> =
       Inr \<lparr>kv = entry [''weight''] tensor24\<rparr>"
  by (simp add: ValueFuture_def entry_def)

section \<open>Sequences\<close>

lemma indices_iff: "i \<in> indices s \<longleftrightarrow> (\<exists>e \<in> set s. index_of e = Some i)"
  by (force simp: indices_def List.map_filter_def image_iff)

lemma indices_Cons:
  "indices (e # s) = (case index_of e of None \<Rightarrow> indices s | Some i \<Rightarrow> insert i (indices s))"
  by (auto simp: indices_iff split: option.splits)

lemma entries_at_Cons:
  "entries_at (e # s) i =
     (if index_of e = Some i then consume e (hd (path e)) # entries_at s i else entries_at s i)"
  by (simp add: entries_at_def)

lemma entries_at_empty: "i \<notin> indices s \<Longrightarrow> entries_at s i = []"
  by (auto simp: entries_at_def indices_iff filter_empty_conv)

text \<open>One entry without an index stops the loop with an error, whatever the map holds.\<close>

lemma ToDataSlice_loop_fails:
  "\<exists>e \<in> set s. index_of e = None \<Longrightarrow> \<exists>r. ToDataSlice_loop s m = Some (Inl (MalformedIndex r))"
proof (induction s arbitrary: m)
  case Nil
  then show ?case by simp
next
  case (Cons e s)
  show ?case
  proof (cases "index_of e")
    case None
    then show ?thesis
      by (cases "path e") (simp_all add: index_of_def)
  next
    case (Some i)
    then obtain p rest where pe: "path e = p # rest" and at: "Atoi p = Some i"
      by (cases "path e") (auto simp: index_of_def)
    from Some Cons.prems have "\<exists>e \<in> set s. index_of e = None" by auto
    from Cons.IH [OF this] pe at show ?thesis
      by (simp add: child_def)
  qed
qed

text \<open>
  When every entry has an index the loop ends with a map: its keys stay distinct, they are
  the keys it started from and the indices met, and each index met holds what it held
  before followed by its entries, in order.
\<close>

lemma ToDataSlice_loop_builds:
  assumes "\<forall>e \<in> set s. index_of e \<noteq> None" "distinct (map fst m)"
  shows "\<exists>sl. ToDataSlice_loop s m = Some (Inr sl)
           \<and> distinct (map fst (walkerSlice_set sl))
           \<and> fst ` set (walkerSlice_set sl) = fst ` set m \<union> indices s
           \<and> (\<forall>i. map_of (walkerSlice_set sl) i =
                 (if i \<in> indices s then Some (map_get m i @ entries_at s i) else map_of m i))"
  using assms
proof (induction s arbitrary: m)
  case Nil
  then show ?case by (simp add: indices_def List.map_filter_def)
next
  case (Cons e s)
  from Cons.prems obtain i where ie: "index_of e = Some i" by auto
  then obtain p rest where pe: "path e = p # rest" and at: "Atoi p = Some i"
    by (cases "path e") (auto simp: index_of_def)
  let ?c = "KeyValue (Some e) p rest (info e)"
  let ?m = "AList.update i (map_get m i @ [?c]) m"
  have cc: "consume e (hd (path e)) = ?c" by (simp add: consume_def pe)
  have d: "distinct (map fst ?m)" using Cons.prems(2) by (rule distinct_update)
  have a: "\<forall>e \<in> set s. index_of e \<noteq> None" using Cons.prems(1) by simp
  from Cons.IH [OF a d] obtain sl where
    sl: "ToDataSlice_loop s ?m = Some (Inr sl)"
    and ds: "distinct (map fst (walkerSlice_set sl))"
    and ks: "fst ` set (walkerSlice_set sl) = fst ` set ?m \<union> indices s"
    and mo: "\<forall>j. map_of (walkerSlice_set sl) j =
                 (if j \<in> indices s then Some (map_get ?m j @ entries_at s j) else map_of ?m j)"
    by blast
  have unfold: "ToDataSlice_loop (e # s) m = ToDataSlice_loop s ?m"
    by (simp add: pe at child_def)
  have k2: "fst ` set (walkerSlice_set sl) = fst ` set m \<union> indices (e # s)"
    using ks by (auto simp: dom_update indices_Cons ie)
  have m2: "map_of (walkerSlice_set sl) j =
      (if j \<in> indices (e # s) then Some (map_get m j @ entries_at (e # s) j) else map_of m j)" for j
  proof (cases "j = i")
    case True
    show ?thesis
    proof (cases "i \<in> indices s")
      case True
      with mo \<open>j = i\<close> show ?thesis
        by (simp add: indices_Cons ie entries_at_Cons cc map_get_def update_conv')
    next
      case False
      with mo \<open>j = i\<close> show ?thesis
        by (simp add: indices_Cons ie entries_at_Cons cc map_get_def update_conv' entries_at_empty)
    qed
  next
    case False
    with mo show ?thesis
      by (simp add: indices_Cons ie entries_at_Cons map_get_def update_conv')
  qed
  from sl ds k2 m2 unfold show ?case by simp
qed

lemma ToDataSlice_result:
  "ToDataSlice_loop s [] = Some (Inr sl) \<Longrightarrow>
     distinct (map fst (walkerSlice_set sl))
     \<and> fst ` set (walkerSlice_set sl) = indices s
     \<and> (\<forall>i. map_of (walkerSlice_set sl) i =
            (if i \<in> indices s then Some (entries_at s i) else None))"
proof -
  assume r: "ToDataSlice_loop s [] = Some (Inr sl)"
  have ok: "\<forall>e \<in> set s. index_of e \<noteq> None"
  proof (rule ccontr)
    assume "\<not> ?thesis"
    then have "\<exists>e \<in> set s. index_of e = None" by simp
    from ToDataSlice_loop_fails [OF this, of "[]"] r show False by auto
  qed
  from ToDataSlice_loop_builds [OF ok, of "[]"] r show ?thesis
    by (auto simp: map_get_def)
qed

lemmas slice_defs =
  ToDataSlice_def Atoi_def digit_val_def map_get_def Len_def Index_def is_nonneg_decimal_def

text \<open>
  C4, as the code has it. An entry has an index when it has a next segment and
  \<open>Atoi\<close> accepts it: an optional sign, decimal digits, a value that fits a 64-bit
  \<open>int\<close>. \<open>ToDataSlice\<close> fails with \<open>MalformedIndex\<close> if some entry of the view has no
  index; otherwise it builds the map that takes each index, negative ones included, to
  the entries of that index with the segment consumed, and has no other key.
\<close>

theorem ToDataSlice_outcome:
  "(if \<exists>e \<in> set (walkerData_set w). index_of e = None
    then \<exists>r. ToDataSlice w = Some (Inl (MalformedIndex r))
    else \<exists>sl. ToDataSlice w = Some (Inr sl)
           \<and> (\<forall>i. map_of (walkerSlice_set sl) i =
                 (if i \<in> indices (walkerData_set w)
                  then Some (entries_at (walkerData_set w) i) else None)))"
proof (cases "\<exists>e \<in> set (walkerData_set w). index_of e = None")
  case True
  then show ?thesis
    using ToDataSlice_loop_fails [OF True, of "[]"] by (simp add: ToDataSlice_def)
next
  case False
  then have ok: "\<forall>e \<in> set (walkerData_set w). index_of e \<noteq> None" by simp
  from ToDataSlice_loop_builds [OF ok, of "[]"] False show ?thesis
    by (auto simp: ToDataSlice_def map_get_def)
qed

theorem ToDataSlice_outcome_witness:
  "index_of (entry [''x'', ''w''] tensor24) = None
   \<and> ToDataSlice \<lparr>walkerData_set = [entry [''0'', ''w''] tensor24, entry [''x'', ''w''] tensor24]\<rparr> =
       Some (Inl (MalformedIndex (Some ''x'')))
   \<and> index_of (entry [''0'', ''w''] tensor24) = Some 0
   \<and> index_of (entry [''1''] tensor24) = Some 1
   \<and> ToDataSlice \<lparr>walkerData_set = [entry [''0'', ''w''] tensor24, entry [''1''] tensor24]\<rparr> =
       Some (Inr \<lparr>walkerSlice_set =
         [(0, [KeyValue (Some (entry [''0'', ''w''] tensor24)) ''0'' [''w''] tensor24]),
          (1, [KeyValue (Some (entry [''1''] tensor24)) ''1'' [] tensor24])]\<rparr>)"
  using ToDataSlice_outcome
          [of "\<lparr>walkerData_set = [entry [''0'', ''w''] tensor24, entry [''x'', ''w''] tensor24]\<rparr>"]
        ToDataSlice_outcome
          [of "\<lparr>walkerData_set = [entry [''0'', ''w''] tensor24, entry [''1''] tensor24]\<rparr>"]
  by (simp add: walk_defs slice_defs)

text \<open>
  C4 as it is stated fails on an entry whose next segment is \<open>-1\<close>: it is not a
  non-negative integer in base 10, and the view becomes a sequence with the index -1.
\<close>

theorem ToDataSlice_counterexample:
  "\<not> is_nonneg_decimal ''-1''
   \<and> ToDataSlice \<lparr>walkerData_set = [entry [''-1'', ''w''] tensor24]\<rparr> =
       Some (Inr \<lparr>walkerSlice_set =
         [(- 1, [KeyValue (Some (entry [''-1'', ''w''] tensor24)) ''-1'' [''w''] tensor24])]\<rparr>)"
  by (simp add: walk_defs slice_defs)

text \<open>
  C7. On a view that \<open>ToDataSlice\<close> built, \<open>Len\<close> is the number of distinct indices of
  the entries (nothing relates it to the largest index), and \<open>Index\<close> returns the view of
  the entries of an index that is present and fails with \<open>NoSuchIndex\<close> for any other.
\<close>

theorem walkerSlice_Len_Index:
  assumes "ToDataSlice w = Some (Inr sl)"
  shows "Len sl = int (card (indices (walkerData_set w)))
       \<and> Index sl i =
           (if i \<in> indices (walkerData_set w)
            then Inr \<lparr>walkerData_set = entries_at (walkerData_set w) i\<rparr>
            else Inl (NoSuchIndex i))"
proof -
  from assms have r: "ToDataSlice_loop (walkerData_set w) [] = Some (Inr sl)"
    by (simp add: ToDataSlice_def)
  note f = ToDataSlice_result [OF r]
  have "length (walkerSlice_set sl) = card (fst ` set (walkerSlice_set sl))"
    using f by (metis distinct_card length_map set_map)
  then have "Len sl = int (card (indices (walkerData_set w)))"
    using f by (simp add: Len_def)
  moreover have "Index sl i =
           (if i \<in> indices (walkerData_set w)
            then Inr \<lparr>walkerData_set = entries_at (walkerData_set w) i\<rparr>
            else Inl (NoSuchIndex i))"
    using f by (simp add: Index_def)
  ultimately show ?thesis by simp
qed

theorem walkerSlice_Len_Index_witness:
  "ToDataSlice \<lparr>walkerData_set = [entry [''0'', ''w''] tensor24, entry [''5'', ''w''] tensor24,
                                  entry [''5'', ''b''] tensor24]\<rparr> =
     Some (Inr \<lparr>walkerSlice_set =
       [(0, [KeyValue (Some (entry [''0'', ''w''] tensor24)) ''0'' [''w''] tensor24]),
        (5, [KeyValue (Some (entry [''5'', ''w''] tensor24)) ''5'' [''w''] tensor24,
             KeyValue (Some (entry [''5'', ''b''] tensor24)) ''5'' [''b''] tensor24])]\<rparr>)
   \<and> Len \<lparr>walkerSlice_set =
       [(0, [KeyValue (Some (entry [''0'', ''w''] tensor24)) ''0'' [''w''] tensor24]),
        (5, [KeyValue (Some (entry [''5'', ''w''] tensor24)) ''5'' [''w''] tensor24,
             KeyValue (Some (entry [''5'', ''b''] tensor24)) ''5'' [''b''] tensor24])]\<rparr> = 2
   \<and> Index \<lparr>walkerSlice_set =
       [(0, [KeyValue (Some (entry [''0'', ''w''] tensor24)) ''0'' [''w''] tensor24]),
        (5, [KeyValue (Some (entry [''5'', ''w''] tensor24)) ''5'' [''w''] tensor24,
             KeyValue (Some (entry [''5'', ''b''] tensor24)) ''5'' [''b''] tensor24])]\<rparr> 5 =
       Inr \<lparr>walkerData_set =
         [KeyValue (Some (entry [''5'', ''w''] tensor24)) ''5'' [''w''] tensor24,
          KeyValue (Some (entry [''5'', ''b''] tensor24)) ''5'' [''b''] tensor24]\<rparr>
   \<and> Index \<lparr>walkerSlice_set =
       [(0, [KeyValue (Some (entry [''0'', ''w''] tensor24)) ''0'' [''w''] tensor24]),
        (5, [KeyValue (Some (entry [''5'', ''w''] tensor24)) ''5'' [''w''] tensor24,
             KeyValue (Some (entry [''5'', ''b''] tensor24)) ''5'' [''b''] tensor24])]\<rparr> 1 =
       Inl (NoSuchIndex 1)"
proof -
  let ?w = "\<lparr>walkerData_set = [entry [''0'', ''w''] tensor24, entry [''5'', ''w''] tensor24,
                                entry [''5'', ''b''] tensor24]\<rparr>"
  let ?sl = "\<lparr>walkerSlice_set =
       [(0, [KeyValue (Some (entry [''0'', ''w''] tensor24)) ''0'' [''w''] tensor24]),
        (5, [KeyValue (Some (entry [''5'', ''w''] tensor24)) ''5'' [''w''] tensor24,
             KeyValue (Some (entry [''5'', ''b''] tensor24)) ''5'' [''b''] tensor24])]\<rparr>"
  have h: "ToDataSlice ?w = Some (Inr ?sl)"
    by (simp add: walk_defs slice_defs)
  have c: "card (indices (walkerData_set ?w)) = 2"
    by (simp add: walk_defs slice_defs)
  show ?thesis
    using h c walkerSlice_Len_Index [OF h, of 5] walkerSlice_Len_Index [OF h, of 1]
    by (simp add: walk_defs slice_defs)
qed

section \<open>The array a leaf yields\<close>

lemma dims_loop_eq:
  "i + length ds \<le> n \<Longrightarrow> length ax = n \<Longrightarrow>
   dims_loop ds i n ax len =
     (take (n - i - length ds) ax @ rev (map sint ds) @ drop (n - i) ax, len * prod_list ds)"
proof (induction ds arbitrary: i ax len)
  case Nil
  then show ?case by simp
next
  case (Cons d ds)
  let ?ax = "ax[n - 1 - i := sint d]"
  have lt: "n - 1 - i < length ax" using Cons.prems by simp
  have a: "i + 1 + length ds \<le> n" using Cons.prems by simp
  have b: "length ?ax = n" using Cons.prems by simp
  have t: "take (n - (i + 1) - length ds) ?ax = take (n - i - length (d # ds)) ax"
    using Cons.prems by simp
  have "drop (n - 1 - i) ?ax = sint d # drop (Suc (n - 1 - i)) ax"
    using lt by (simp add: upd_conv_take_nth_drop)
  moreover have "Suc (n - 1 - i) = n - i" using Cons.prems by simp
  moreover have "n - (i + 1) = n - 1 - i" by simp
  ultimately have dr: "drop (n - (i + 1)) ?ax = sint d # drop (n - i) ax" by simp
  show ?case
    using Cons.IH [OF a b, of "len * d"] t dr by (simp add: mult.assoc)
qed

text \<open>The loop reverses the dimensions and multiplies them, in 64-bit arithmetic.\<close>

lemma dims_loop_rev:
  "dims_loop ds 0 (length ds) (replicate (length ds) 0) 1 = (rev (map sint ds), prod_list ds)"
  using dims_loop_eq [of 0 ds "length ds" "replicate (length ds) 0" 1] by simp

lemma float32s_ok:
  "4 * k \<le> length buf \<Longrightarrow>
   \<exists>fs. float32s k buf = Some fs \<and> length fs = k
        \<and> concat (map float32_bytes fs) = take (4 * k) buf"
proof (induction k arbitrary: buf)
  case 0
  then show ?case by simp
next
  case (Suc k)
  then obtain a b c d rest where buf: "buf = a # b # c # d # rest"
    by (cases buf; cases "tl buf"; cases "tl (tl buf)"; cases "tl (tl (tl buf))") auto
  with Suc.prems have "4 * k \<le> length rest" by simp
  from Suc.IH [OF this] obtain fs where
    "float32s k rest = Some fs" "length fs = k" "concat (map float32_bytes fs) = take (4 * k) rest"
    by blast
  moreover have "4 * Suc k = Suc (Suc (Suc (Suc (4 * k))))" by simp
  ultimately show ?case using buf by (simp del: mult_Suc_right)
qed

lemma float32s_numeral:
  "float32s (numeral k) (a # b # c # d # rest) =
     (case float32s (pred_numeral k) rest of
        None \<Rightarrow> None
      | Some fs \<Rightarrow> Some (Float32 a b c d # fs))"
  by (simp add: numeral_eq_Suc)

lemma sdiv_4_nonneg: "0 \<le> k \<Longrightarrow> (k :: int) sdiv 4 = k div 4"
  by (simp add: signed_divide_int_def sgn_if)

lemma CopyN_enough:
  "0 \<le> n \<Longrightarrow> n \<le> int (length (bytes r)) \<Longrightarrow> CopyN r n = (take (nat n) (bytes r), n, None)"
  by (auto simp: CopyN_def Let_def min_def)

lemma CopyN_short:
  "int (length (bytes r)) < n \<Longrightarrow>
   CopyN r n = (bytes r, int (length (bytes r)),
                Some (case fails r of None \<Rightarrow> EOF | Some e \<Rightarrow> StreamError e))"
  by (auto simp: CopyN_def Let_def min_def)

lemma CopyN_negative: "n < 0 \<Longrightarrow> CopyN r n = ([], 0, None)"
  by (auto simp: CopyN_def Let_def)

subsection \<open>Signed and unsigned readings of a 64-bit word\<close>

lemma shift_mod:
  fixes u m :: int
  assumes "0 \<le> u" "u < 2 * m"
  shows "(u + m) mod (2 * m) - m = (if u < m then u else u - 2 * m)"
proof (cases "u < m")
  case True
  then have "(u + m) mod (2 * m) = u + m"
    using assms by (intro mod_pos_pos_trivial) linarith+
  then show ?thesis using True by simp
next
  case False
  have "(u + m) mod (2 * m) = (u + m - 2 * m) mod (2 * m)"
    by (metis mod_diff_right_eq mod_self diff_zero)
  also have "\<dots> = u + m - 2 * m"
    using False assms by (intro mod_pos_pos_trivial) linarith+
  finally show ?thesis using False by simp
qed

lemma sint_64_cases:
  "sint (x :: 64 word) = (if uint x < 2 ^ 63 then uint x else uint x - 2 ^ 64)"
proof -
  have hi: "uint x < 2 * 2 ^ 63" using uint_bounded [of x] by simp
  have s: "sint x = (uint x + 2 ^ 63) mod (2 * 2 ^ 63) - 2 ^ 63"
    by (simp add: sint_uint signed_take_bit_eq_take_bit_shift take_bit_eq_mod)
  have e: "(2::int) * 2 ^ 63 = 2 ^ 64" by simp
  show ?thesis
    unfolding s using shift_mod [of "uint x" "2 ^ 63", OF _ hi] e by simp
qed

lemma sint_small: "unat (x :: 64 word) < 2 ^ 63 \<Longrightarrow> sint x = int (unat x)"
proof -
  assume "unat x < 2 ^ 63"
  then have "int (unat x) < int (2 ^ 63)" by (rule iffD2 [OF of_nat_less_iff])
  then have "uint x < 2 ^ 63" by (simp only: uint_nat of_nat_power of_nat_numeral)
  then show ?thesis by (simp only: sint_64_cases if_True uint_nat)
qed

lemma sint_nonneg_unat: "0 \<le> sint (x :: 64 word) \<Longrightarrow> unat x = nat (sint x)"
proof -
  assume a: "0 \<le> sint x"
  have hi: "uint x < 2 ^ 64" using uint_bounded [of x] by simp
  have "uint x < 2 ^ 63"
  proof (rule ccontr)
    assume n: "\<not> uint x < 2 ^ 63"
    then have "sint x = uint x - 2 ^ 64" by (simp only: sint_64_cases if_False)
    then show False using a hi by linarith
  qed
  then have "sint x = uint x" by (simp only: sint_64_cases if_True)
  then show ?thesis by (simp only: unat_eq_nat_uint)
qed

lemma unat_prod_list:
  "unat (prod_list (ds :: 64 word list)) = prod_list (map unat ds) mod 2 ^ 64"
proof (induction ds)
  case Nil
  show ?case by simp
next
  case (Cons d ds)
  have "unat (d * prod_list ds) = unat d * unat (prod_list ds) mod 2 ^ 64"
    by (simp add: unat_word_ariths)
  also have "\<dots> = unat d * (prod_list (map unat ds) mod 2 ^ 64) mod 2 ^ 64"
    by (simp add: Cons.IH)
  also have "\<dots> = unat d * prod_list (map unat ds) mod 2 ^ 64"
    by (simp add: mod_mult_right_eq)
  finally show ?case by simp
qed

subsection \<open>The body of \<open>Value\<close>\<close>

text \<open>The outcome of the body once the stream has delivered the declared number of bytes.\<close>

lemma Value_read_after_copy:
  assumes "0 \<le> sint (Size t)" "sint (Size t) \<le> int (length (bytes r))"
  shows "Value_read t r =
     (if sint (prod_list (Dimensions t)) \<noteq> sint (Size t) sdiv 4
      then Inl (SizeMismatch (rev (map sint (Dimensions t))) (sint (prod_list (Dimensions t)))
                  (sint (Size t)) 4 (sint (Size t) sdiv 4))
      else if sint (Size t) = 0 then Inl PanicIndexOutOfRange
      else (case float32s (nat (sint (prod_list (Dimensions t))))
                   (take (nat (sint (Size t))) (bytes r)) of
              None \<Rightarrow> Inl ReadOutsideBuffer
            | Some fs \<Rightarrow> Inr (ArrayFloat32 fs (rev (map sint (Dimensions t))))))"
proof -
  have e: "take (nat (sint (Size t))) (bytes r) = [] \<longleftrightarrow> sint (Size t) = 0"
    using assms by (auto simp: take_eq_Nil)
  have q: "0 \<le> sint (Size t) sdiv 4"
    using assms(1) by (simp add: sdiv_4_nonneg)
  show ?thesis
    using e q
    by (auto simp: Value_read_def Let_def CopyN_enough [OF assms] dims_loop_rev unsafe_Slice_def
             split: option.splits sum.splits)
qed

text \<open>What a successful body says about the tensor and about the array.\<close>

lemma Value_read_Inr:
  assumes "Value_read t r = Inr a"
  shows "0 < sint (Size t) \<and> sint (Size t) \<le> int (length (bytes r))
       \<and> sint (prod_list (Dimensions t)) = sint (Size t) sdiv 4
       \<and> axes a = rev (map sint (Dimensions t))
       \<and> int (length (flat a)) = sint (prod_list (Dimensions t))
       \<and> concat (map float32_bytes (flat a)) = take (4 * length (flat a)) (bytes r)"
proof -
  let ?size = "sint (Size t)"
  let ?cnt = "sint (prod_list (Dimensions t))"
  have s0: "0 \<le> ?size"
  proof (rule ccontr)
    assume "\<not> 0 \<le> ?size"
    then have "?size < 0" by simp
    then show False using assms
      by (simp add: Value_read_def Let_def CopyN_negative)
  qed
  have s1: "?size \<le> int (length (bytes r))"
  proof (rule ccontr)
    assume "\<not> ?size \<le> int (length (bytes r))"
    then have "int (length (bytes r)) < ?size" by simp
    then show False using assms
      by (simp add: Value_read_def Let_def CopyN_short)
  qed
  note v = Value_read_after_copy [OF s0 s1]
  from v assms have c: "?cnt = ?size sdiv 4" and nz: "?size \<noteq> 0"
    by (auto split: if_splits)
  have sd: "?size sdiv 4 = ?size div 4" using s0 by (rule sdiv_4_nonneg)
  have le: "4 * nat ?cnt \<le> length (take (nat ?size) (bytes r))"
    using s0 s1 c sd by simp
  from float32s_ok [OF le] obtain fs where
    fs: "float32s (nat ?cnt) (take (nat ?size) (bytes r)) = Some fs" "length fs = nat ?cnt"
        "concat (map float32_bytes fs) = take (4 * nat ?cnt) (take (nat ?size) (bytes r))"
    by blast
  from v assms c nz fs have a: "a = ArrayFloat32 fs (rev (map sint (Dimensions t)))"
    by simp
  have "min (nat ?size) (4 * nat ?cnt) = 4 * nat ?cnt" using s0 c sd by simp
  then have tk: "take (4 * nat ?cnt) (take (nat ?size) (bytes r)) = take (4 * nat ?cnt) (bytes r)"
    by (simp add: min.commute)
  have nn: "0 \<le> ?cnt" using c sd s0 by simp
  show ?thesis
    using s0 s1 c nz a fs tk nn by (simp add: ArrayFloat32_def)
qed

subsection \<open>\<open>Value\<close> and the gate\<close>

lemma unlocked_eq: "\<not> locker d \<Longrightarrow> d\<lparr>locker := False\<rparr> = (d :: decoder)"
  by (cases d) simp

lemma Reader_unlocked:
  "\<not> locker d \<Longrightarrow>
   Reader d t = (case ti_Reader t of
                   Inl e \<Rightarrow> Some (Inl (OpenFailed e), d)
                 | Inr r \<Rightarrow> Some (Inr r, d\<lparr>locker := True\<rparr>))"
  by (cases d) (simp add: Reader_def Lock_def Unlock_def split: sum.splits)

lemma Value_unlocked:
  "\<not> locker d \<Longrightarrow>
   Value d pr = Some (case ti_Reader (info (kv pr)) of
                        Inl e \<Rightarrow> Inl (OpenFailed e)
                      | Inr r \<Rightarrow> Value_read (info (kv pr)) r, d)"
  by (cases d) (simp add: Value_def Reader_unlocked Close_def Unlock_def Let_def split: sum.splits)

lemma Value_locked: "locker d \<Longrightarrow> Value d pr = None"
  by (simp add: Value_def Reader_def Lock_def)

lemmas value_defs =
  float32s_numeral Value_def Reader_def Lock_def Unlock_def Close_def Value_read_def CopyN_def
  unsafe_Slice_def ArrayFloat32_def Let_def entry_def signed_divide_int_def bytes24_def

text \<open>
  C9. With the gate free, \<open>Value\<close> always returns and leaves the gate free. If the
  underlying stream cannot be opened, \<open>Reader\<close> has already released the lock when it
  hands the error on; if it can, \<open>Reader\<close> returns holding the lock and the deferred
  \<open>Close\<close> releases it, whatever the body came to: an array, a failed read, a size
  mismatch or a panic.
\<close>

theorem Value_releases_gate:
  assumes "\<not> locker d"
  shows "(\<forall>e. ti_Reader (info (kv pr)) = Inl e \<longrightarrow>
            Reader d (info (kv pr)) = Some (Inl (OpenFailed e), d\<lparr>locker := False\<rparr>)
          \<and> Value d pr = Some (Inl (OpenFailed e), d\<lparr>locker := False\<rparr>))
       \<and> (\<forall>r. ti_Reader (info (kv pr)) = Inr r \<longrightarrow>
            Reader d (info (kv pr)) = Some (Inr r, d\<lparr>locker := True\<rparr>)
          \<and> Value d pr = Some (Value_read (info (kv pr)) r, d\<lparr>locker := False\<rparr>))"
  using assms by (simp add: Value_unlocked Reader_unlocked unlocked_eq)

theorem Value_releases_gate_witness:
  "\<not> locker \<lparr>locker = False\<rparr>
   \<and> ti_Reader tensor_closed = Inl ''file already closed''
   \<and> Reader \<lparr>locker = False\<rparr> tensor_closed =
       Some (Inl (OpenFailed ''file already closed''), \<lparr>locker = False\<rparr>)
   \<and> Value \<lparr>locker = False\<rparr> \<lparr>kv = entry [] tensor_closed\<rparr> =
       Some (Inl (OpenFailed ''file already closed''), \<lparr>locker = False\<rparr>)
   \<and> ti_Reader tensor_short = Inr \<lparr>bytes = [1, 2, 3], fails = None\<rparr>
   \<and> Value \<lparr>locker = False\<rparr> \<lparr>kv = entry [] tensor_short\<rparr> =
       Some (Inl (ShortRead EOF), \<lparr>locker = False\<rparr>)"
proof -
  have h: "\<not> locker \<lparr>locker = False\<rparr>" by simp
  show ?thesis
    using Value_releases_gate [OF h, of "\<lparr>kv = entry [] tensor_closed\<rparr>"]
          Value_releases_gate [OF h, of "\<lparr>kv = entry [] tensor_short\<rparr>"]
    by (simp add: value_defs tensor_closed_def tensor_short_def)
qed

subsection \<open>Where nothing wraps\<close>

lemma sint_prod_no_wrap:
  assumes "prod_list (map unat (ds :: 64 word list)) < 2 ^ 63"
  shows "sint (prod_list ds) = int (prod_list (map unat ds))"
proof -
  have "(2 :: nat) ^ 63 < 2 ^ 64" by simp
  with assms have "prod_list (map unat ds) < 2 ^ 64" by (rule less_trans)
  then have "unat (prod_list ds) = prod_list (map unat ds)"
    by (simp only: unat_prod_list mod_less)
  with assms sint_small [of "prod_list ds"] show ?thesis by simp
qed

lemma map_sint_no_wrap:
  "\<forall>x \<in> set (ds :: 64 word list). unat x < 2 ^ 63 \<Longrightarrow>
   map sint ds = map (\<lambda>x. int (unat x)) ds"
  by (induction ds) (simp_all add: sint_small)

text \<open>
  On a record whose dimensions and their product are below \<open>2^63\<close>, a successful
  \<open>Value\<close> gives the dimensions in reverse order as axes, their product as the number of
  elements, and the first bytes of the stream, four to an element, as the elements.
\<close>

lemma Value_array_no_wrap:
  assumes "Value d pr = Some (Inr a, d')"
    and "\<forall>x \<in> set (Dimensions (info (kv pr))). unat x < 2 ^ 63"
    and "prod_list (map unat (Dimensions (info (kv pr)))) < 2 ^ 63"
  shows "\<exists>r. ti_Reader (info (kv pr)) = Inr r
       \<and> axes a = rev (map (\<lambda>x. int (unat x)) (Dimensions (info (kv pr))))
       \<and> length (flat a) = prod_list (map unat (Dimensions (info (kv pr))))
       \<and> concat (map float32_bytes (flat a)) = take (4 * length (flat a)) (bytes r)"
proof -
  let ?t = "info (kv pr)"
  have ul: "\<not> locker d" using assms(1) Value_locked [of d pr] by auto
  from Value_unlocked [OF ul, of pr] assms(1)
  obtain r where r: "ti_Reader ?t = Inr r" and v: "Value_read ?t r = Inr a"
    by (cases "ti_Reader ?t") auto
  note f = Value_read_Inr [OF v]
  have ax: "axes a = rev (map (\<lambda>x. int (unat x)) (Dimensions ?t))"
    using f map_sint_no_wrap [OF assms(2)] by simp
  have "int (length (flat a)) = int (prod_list (map unat (Dimensions ?t)))"
    using f sint_prod_no_wrap [OF assms(3)] by simp
  then have len: "length (flat a) = prod_list (map unat (Dimensions ?t))"
    by (simp only: of_nat_eq_iff)
  have bs: "concat (map float32_bytes (flat a)) = take (4 * length (flat a)) (bytes r)"
    using f by blast
  show ?thesis
    by (rule exI [of _ r]) (intro conjI r ax len bs)
qed

text \<open>
  C1 fails in the code where the arithmetic of \<open>length *= int(dim)\<close> and \<open>int(dim)\<close>
  wraps around. On a tensor of 4 bytes whose dimensions are 7 and
  \<open>(3 * 2^64 + 1) / 7\<close>, the product \<open>3 * 2^64 + 1\<close> wraps to 1, the size check passes
  and \<open>Value\<close> returns an array of one element. On a tensor of 4 bytes whose dimensions
  are both \<open>2^64 - 1\<close>, it returns an array of one element with the axes \<open>[-1, -1]\<close>.
\<close>

theorem Value_wraps_around:
  "Value \<lparr>locker = False\<rparr> \<lparr>kv = entry [] tensor_wrap\<rparr> =
     Some (Inr \<lparr>flat = [Float32 1 2 3 4], axes = [7905747460161236407, 7]\<rparr>,
           \<lparr>locker = False\<rparr>)
   \<and> prod_list (map unat (Dimensions tensor_wrap)) = 55340232221128654849
   \<and> Value \<lparr>locker = False\<rparr> \<lparr>kv = entry [] tensor_neg\<rparr> =
     Some (Inr \<lparr>flat = [Float32 1 2 3 4], axes = [- 1, - 1]\<rparr>, \<lparr>locker = False\<rparr>)
   \<and> rev (map (\<lambda>x. int (unat x)) (Dimensions tensor_neg)) =
       [18446744073709551615, 18446744073709551615]"
  by (simp add: value_defs tensor_wrap_def tensor_neg_def)

text \<open>
  C2, as the code has it. The check compares whole elements, not bytes. Take a record
  whose dimensions and their product are below \<open>2^63\<close>, whose stream has delivered the
  declared number of bytes, and that is not empty (a byte size of 0 with a product of 0).
  \<open>Value\<close> fails with \<open>SizeMismatch\<close>, reporting the reversed axes, the product, the
  byte size, the width 4 and the quotient, exactly when the product of the dimensions
  differs from the byte size divided by 4 and rounded down, and succeeds otherwise. So
  it succeeds exactly when the byte size is at least 4 times the product and less than 4
  more than that.
\<close>

theorem Value_size_check:
  assumes "\<not> locker d" and "ti_Reader (info (kv pr)) = Inr r"
    and "0 \<le> sint (Size (info (kv pr)))"
    and "sint (Size (info (kv pr))) \<le> int (length (bytes r))"
    and "\<forall>x \<in> set (Dimensions (info (kv pr))). unat x < 2 ^ 63"
    and "prod_list (map unat (Dimensions (info (kv pr)))) < 2 ^ 63"
    and "0 < sint (Size (info (kv pr))) \<or> 0 < prod_list (map unat (Dimensions (info (kv pr))))"
  shows "(if int (prod_list (map unat (Dimensions (info (kv pr))))) \<noteq> sint (Size (info (kv pr))) sdiv 4
          then Value d pr =
                 Some (Inl (SizeMismatch (rev (map (\<lambda>x. int (unat x)) (Dimensions (info (kv pr)))))
                             (int (prod_list (map unat (Dimensions (info (kv pr))))))
                             (sint (Size (info (kv pr)))) 4 (sint (Size (info (kv pr))) sdiv 4)), d)
          else (\<exists>a. Value d pr = Some (Inr a, d)))
       \<and> ((\<exists>a. Value d pr = Some (Inr a, d)) \<longleftrightarrow>
            4 * int (prod_list (map unat (Dimensions (info (kv pr))))) \<le> sint (Size (info (kv pr)))
            \<and> sint (Size (info (kv pr)))
                < 4 * int (prod_list (map unat (Dimensions (info (kv pr))))) + 4)"
proof -
  let ?t = "info (kv pr)"
  let ?size = "sint (Size ?t)"
  let ?P = "int (prod_list (map unat (Dimensions ?t)))"
  let ?ax = "rev (map (\<lambda>x. int (unat x)) (Dimensions ?t))"
  have cnt: "sint (prod_list (Dimensions ?t)) = ?P" using assms(6) by (rule sint_prod_no_wrap)
  have axs: "rev (map sint (Dimensions ?t)) = ?ax"
    using map_sint_no_wrap [OF assms(5)] by simp
  have sd: "?size sdiv 4 = ?size div 4" using assms(3) by (rule sdiv_4_nonneg)
  have V: "Value d pr = Some (Value_read ?t r, d)"
    using Value_unlocked [OF assms(1), of pr] assms(2) by simp
  note v = Value_read_after_copy [OF assms(3) assms(4), unfolded cnt axs]
  have mm: "Value d pr = Some (Inl (SizeMismatch ?ax ?P ?size 4 (?size sdiv 4)), d)"
    if "?P \<noteq> ?size sdiv 4"
    using that v V by simp
  have ok: "\<exists>a. Value d pr = Some (Inr a, d)" if c: "?P = ?size sdiv 4"
  proof -
    have nz: "?size \<noteq> 0"
    proof
      assume z: "?size = 0"
      with c have "?P = 0" by simp
      with z assms(7) show False by simp
    qed
    have "4 * nat ?P \<le> length (take (nat ?size) (bytes r))"
      using assms(3) assms(4) c sd by simp
    from float32s_ok [OF this] obtain fs where
      "float32s (nat ?P) (take (nat ?size) (bytes r)) = Some fs" by blast
    then have "\<exists>a. Value_read ?t r = Inr a" using v c nz by simp
    then show ?thesis using V by auto
  qed
  have first: "if ?P \<noteq> ?size sdiv 4
          then Value d pr = Some (Inl (SizeMismatch ?ax ?P ?size 4 (?size sdiv 4)), d)
          else (\<exists>a. Value d pr = Some (Inr a, d))"
    using mm ok by (cases "?P = ?size sdiv 4") simp_all
  have iff1: "(\<exists>a. Value d pr = Some (Inr a, d)) \<longleftrightarrow> ?P = ?size sdiv 4"
  proof
    assume "\<exists>a. Value d pr = Some (Inr a, d)"
    then show "?P = ?size sdiv 4" using mm by (cases "?P = ?size sdiv 4") auto
  next
    assume "?P = ?size sdiv 4"
    then show "\<exists>a. Value d pr = Some (Inr a, d)" by (rule ok)
  qed
  have iff2: "?P = ?size sdiv 4 \<longleftrightarrow> 4 * ?P \<le> ?size \<and> ?size < 4 * ?P + 4"
    unfolding sd by linarith
  show ?thesis using first iff1 iff2 by simp
qed

theorem Value_size_check_witness:
  "\<not> locker \<lparr>locker = False\<rparr>
   \<and> ti_Reader tensor20 = Inr \<lparr>bytes = take 20 bytes24, fails = None\<rparr>
   \<and> sint (Size tensor20) = 20 \<and> int (length (take 20 bytes24)) = 20
   \<and> Dimensions tensor20 = [3, 2]
   \<and> unat (3 :: 64 word) < 2 ^ 63 \<and> unat (2 :: 64 word) < 2 ^ 63
   \<and> prod_list (map unat (Dimensions tensor20)) = 6
   \<and> Value \<lparr>locker = False\<rparr> \<lparr>kv = entry [] tensor20\<rparr> =
       Some (Inl (SizeMismatch [2, 3] 6 20 4 5), \<lparr>locker = False\<rparr>)
   \<and> ti_Reader tensor24 = Inr \<lparr>bytes = bytes24, fails = None\<rparr>
   \<and> sint (Size tensor24) = 24 \<and> int (length bytes24) = 24
   \<and> Dimensions tensor24 = [3, 2]
   \<and> prod_list (map unat (Dimensions tensor24)) = 6
   \<and> (\<exists>a. Value \<lparr>locker = False\<rparr> \<lparr>kv = entry [] tensor24\<rparr> = Some (Inr a, \<lparr>locker = False\<rparr>))"
proof -
  have h: "\<not> locker \<lparr>locker = False\<rparr>" by simp
  have u: "unat (3 :: 64 word) < 2 ^ 63" "unat (2 :: 64 word) < 2 ^ 63" by simp_all
  have r20: "ti_Reader (info (kv \<lparr>kv = entry [] tensor20\<rparr>)) =
               Inr \<lparr>bytes = take 20 bytes24, fails = None\<rparr>"
    by (simp add: entry_def tensor20_def)
  have lo20: "0 \<le> sint (Size (info (kv \<lparr>kv = entry [] tensor20\<rparr>)))"
    by (simp add: entry_def tensor20_def)
  have hi20: "sint (Size (info (kv \<lparr>kv = entry [] tensor20\<rparr>)))
                \<le> int (length (bytes \<lparr>bytes = take 20 bytes24, fails = None\<rparr>))"
    by (simp add: entry_def tensor20_def bytes24_def)
  have d20: "\<forall>x \<in> set (Dimensions (info (kv \<lparr>kv = entry [] tensor20\<rparr>))). unat x < 2 ^ 63"
    using u by (simp add: entry_def tensor20_def)
  have p20: "prod_list (map unat (Dimensions (info (kv \<lparr>kv = entry [] tensor20\<rparr>)))) < 2 ^ 63"
    by (simp add: entry_def tensor20_def)
  have n20: "0 < sint (Size (info (kv \<lparr>kv = entry [] tensor20\<rparr>)))
             \<or> 0 < prod_list (map unat (Dimensions (info (kv \<lparr>kv = entry [] tensor20\<rparr>))))"
    by (simp add: entry_def tensor20_def)
  have r24: "ti_Reader (info (kv \<lparr>kv = entry [] tensor24\<rparr>)) =
               Inr \<lparr>bytes = bytes24, fails = None\<rparr>"
    by (simp add: entry_def tensor24_def)
  have lo24: "0 \<le> sint (Size (info (kv \<lparr>kv = entry [] tensor24\<rparr>)))"
    by (simp add: entry_def tensor24_def)
  have hi24: "sint (Size (info (kv \<lparr>kv = entry [] tensor24\<rparr>)))
                \<le> int (length (bytes \<lparr>bytes = bytes24, fails = None\<rparr>))"
    by (simp add: entry_def tensor24_def bytes24_def)
  have d24: "\<forall>x \<in> set (Dimensions (info (kv \<lparr>kv = entry [] tensor24\<rparr>))). unat x < 2 ^ 63"
    using u by (simp add: entry_def tensor24_def)
  have p24: "prod_list (map unat (Dimensions (info (kv \<lparr>kv = entry [] tensor24\<rparr>)))) < 2 ^ 63"
    by (simp add: entry_def tensor24_def)
  have n24: "0 < sint (Size (info (kv \<lparr>kv = entry [] tensor24\<rparr>)))
             \<or> 0 < prod_list (map unat (Dimensions (info (kv \<lparr>kv = entry [] tensor24\<rparr>))))"
    by (simp add: entry_def tensor24_def)
  show ?thesis
    using u Value_size_check [OF h r20 lo20 hi20 d20 p20 n20]
          Value_size_check [OF h r24 lo24 hi24 d24 p24 n24]
    by (simp add: entry_def tensor20_def tensor24_def bytes24_def signed_divide_int_def)
qed

text \<open>
  C2 as it is stated fails on a tensor of dimensions \<open>[3, 2]\<close> and 25 bytes: \<open>Value\<close>
  succeeds, and 25 is not 4 times 6.
\<close>

theorem Value_size_check_counterexample:
  "Value \<lparr>locker = False\<rparr> \<lparr>kv = entry [] tensor25\<rparr> =
     Some (Inr \<lparr>flat = [Float32 1 2 3 4, Float32 5 6 7 8, Float32 9 10 11 12,
                        Float32 13 14 15 16, Float32 17 18 19 20, Float32 21 22 23 24],
                axes = [2, 3]\<rparr>, \<lparr>locker = False\<rparr>)
   \<and> sint (Size tensor25) = 25
   \<and> 4 * prod_list (map unat (Dimensions tensor25)) = 24"
  by (simp add: value_defs tensor25_def)

section \<open>Mutual exclusion at the gate\<close>

lemma count_update:
  "i < length xs \<Longrightarrow>
   length (filter P (xs[i := y])) + (if P (xs ! i) then 1 else 0) =
   length (filter P xs) + (if P y then 1 else 0)"
proof (induction xs arbitrary: i)
  case Nil
  then show ?case by simp
next
  case (Cons x xs)
  show ?case
  proof (cases i)
    case 0
    then show ?thesis by simp
  next
    case (Suc j)
    then have "j < length xs" using Cons.prems by simp
    from Cons.IH [OF this] Suc show ?thesis by simp
  qed
qed

text \<open>What a returning \<open>Reader\<close> and a returning \<open>Close\<close> say about the mutex.\<close>

lemma Reader_locked: "locker d \<Longrightarrow> Reader d t = None"
  by (simp add: Reader_def Lock_def)

lemma Reader_handle:
  "Reader d t = Some (Inr r, d') \<Longrightarrow>
   \<not> locker d \<and> d' = d\<lparr>locker := True\<rparr> \<and> ti_Reader t = Inr r"
  by (cases "locker d") (auto simp: Reader_locked Reader_unlocked split: sum.splits)

lemma Reader_error: "Reader d t = Some (Inl e, d') \<Longrightarrow> \<not> locker d \<and> d' = d"
  by (cases "locker d") (auto simp: Reader_locked Reader_unlocked split: sum.splits)

lemma Close_returns: "Close d = Inr d' \<Longrightarrow> locker d \<and> d' = d\<lparr>locker := False\<rparr>"
  by (auto simp: Close_def Unlock_def split: if_splits)

lemma Close_locked: "locker d \<Longrightarrow> Close d = Inr (d\<lparr>locker := False\<rparr>)"
  by (simp add: Close_def Unlock_def)

lemma opens_of_snoc:
  "opens_of j (tr @ [ev]) =
     opens_of j tr + (case ev of Opened i _ \<Rightarrow> if i = j then 1 else 0 | _ \<Rightarrow> 0)"
  by (simp add: opens_of_def split: event.splits)

lemma closes_of_snoc:
  "closes_of j (tr @ [ev]) =
     closes_of j tr + (case ev of Closed i \<Rightarrow> if i = j then 1 else 0 | _ \<Rightarrow> 0)"
  by (simp add: closes_of_def split: event.splits)

lemma gate_inv_init: "gate_inv [] (init n)"
  by (simp add: gate_inv_def init_def open_streams_def opens_of_def closes_of_def)

lemma gate_inv_step:
  assumes "step s ev s'" "gate_inv tr s"
  shows "gate_inv (tr @ [ev]) s'"
  using assms(1)
proof (cases rule: step.cases)
  case (opened i t r d)
  from Reader_handle [OF opened(5)] have ul: "\<not> locker (dec s)" and d: "d = (dec s)\<lparr>locker := True\<rparr>"
    by simp_all
  from count_update [OF opened(3), of "\<lambda>p. p = Holding" Holding] opened(4)
  have "open_streams s' = open_streams s + 1"
    by (simp add: open_streams_def opened(2))
  moreover have "open_streams s = 0" using assms(2) ul by (simp add: gate_inv_def)
  ultimately have a: "open_streams s' = (if locker (dec s') then 1 else 0)"
    by (simp add: opened(2) d)
  have b: "opens_of j (tr @ [ev]) =
             closes_of j (tr @ [ev]) + (if pcs s' ! j = Holding then 1 else 0)"
    if j: "j < length (pcs s')" for j
  proof -
    have j': "j < length (pcs s)" using j by (simp add: opened(2))
    from assms(2) j' have
      p: "opens_of j tr = closes_of j tr + (if pcs s ! j = Holding then 1 else 0)"
      by (simp add: gate_inv_def)
    show ?thesis
    proof (cases "j = i")
      case True
      with p opened(3) opened(4) show ?thesis
        by (simp add: opened(1) opened(2) opens_of_snoc closes_of_snoc)
    next
      case False
      with p show ?thesis
        by (simp add: opened(1) opened(2) opens_of_snoc closes_of_snoc)
    qed
  qed
  show ?thesis unfolding gate_inv_def using a b by blast
next
  case (refused i t e d)
  from Reader_error [OF refused(5)] have d: "d = dec s" by simp
  have same: "s' = s" by (simp add: refused(2) d)
  show ?thesis
    using assms(2)
    by (simp add: gate_inv_def same refused(1) opens_of_snoc closes_of_snoc)
next
  case (closed i d)
  from Close_returns [OF closed(5)] have lk: "locker (dec s)" and d: "d = (dec s)\<lparr>locker := False\<rparr>"
    by simp_all
  from count_update [OF closed(3), of "\<lambda>p. p = Holding" Idle] closed(4)
  have "open_streams s' + 1 = open_streams s"
    by (simp add: open_streams_def closed(2))
  moreover have "open_streams s = 1" using assms(2) lk by (simp add: gate_inv_def)
  ultimately have a: "open_streams s' = (if locker (dec s') then 1 else 0)"
    by (simp add: closed(2) d)
  have b: "opens_of j (tr @ [ev]) =
             closes_of j (tr @ [ev]) + (if pcs s' ! j = Holding then 1 else 0)"
    if j: "j < length (pcs s')" for j
  proof -
    have j': "j < length (pcs s)" using j by (simp add: closed(2))
    from assms(2) j' have
      p: "opens_of j tr = closes_of j tr + (if pcs s ! j = Holding then 1 else 0)"
      by (simp add: gate_inv_def)
    show ?thesis
    proof (cases "j = i")
      case True
      with p closed(3) closed(4) show ?thesis
        by (simp add: closed(1) closed(2) opens_of_snoc closes_of_snoc)
    next
      case False
      with p show ?thesis
        by (simp add: closed(1) closed(2) opens_of_snoc closes_of_snoc)
    qed
  qed
  show ?thesis unfolding gate_inv_def using a b by blast
qed

lemma run_gate_inv: "run n tr s \<Longrightarrow> gate_inv tr s"
  by (induction rule: run.induct) (auto intro: gate_inv_init gate_inv_step)

lemma holding_counts:
  "i < length xs \<Longrightarrow> xs ! i = Holding \<Longrightarrow> 0 < length (filter (\<lambda>p. p = Holding) xs)"
proof -
  assume "i < length xs" "xs ! i = Holding"
  then have "Holding \<in> set xs" using nth_mem by fastforce
  then have "filter (\<lambda>p. p = Holding) xs \<noteq> []" by (simp add: filter_empty_conv)
  then show ?thesis by simp
qed

text \<open>A goroutine at a free gate whose stream opens: the two steps of its call of \<open>Value\<close>.\<close>

lemma Value_is_two_steps:
  assumes inv: "open_streams s = (if locker (dec s) then 1 else 0)"
    and free: "open_streams s = 0"
    and i: "i < length (pcs s)" and idle: "pcs s ! i = Idle"
    and r: "ti_Reader (info (kv pr)) = Inr r"
  shows "\<exists>s1 s2. step s (Opened i (info (kv pr))) s1 \<and> open_streams s1 = 1
           \<and> step s1 (Closed i) s2 \<and> open_streams s2 = 0
           \<and> Value (dec s) pr = Some (Value_read (info (kv pr)) r, dec s2)"
proof -
  let ?t = "info (kv pr)"
  have ul: "\<not> locker (dec s)" using inv free by (simp split: if_splits)
  let ?s1 = "s\<lparr>dec := (dec s)\<lparr>locker := True\<rparr>, pcs := (pcs s)[i := Holding]\<rparr>"
  let ?s2 = "?s1\<lparr>dec := (dec ?s1)\<lparr>locker := False\<rparr>, pcs := (pcs ?s1)[i := Idle]\<rparr>"
  have rd: "Reader (dec s) ?t = Some (Inr r, (dec s)\<lparr>locker := True\<rparr>)"
    using Reader_unlocked [OF ul, of ?t] r by simp
  have st1: "step s (Opened i ?t) ?s1" using i idle rd by (rule step.opened)
  from count_update [OF i, of "\<lambda>p. p = Holding" Holding] idle free
  have o1: "open_streams ?s1 = 1" by (simp add: open_streams_def)
  have i1: "i < length (pcs ?s1)" using i by simp
  have h1: "pcs ?s1 ! i = Holding" using i by simp
  have c1: "Close (dec ?s1) = Inr ((dec ?s1)\<lparr>locker := False\<rparr>)"
    by (rule Close_locked) simp
  have st2: "step ?s1 (Closed i) ?s2" using i1 h1 c1 by (rule step.closed)
  from count_update [OF i1, of "\<lambda>p. p = Holding" Idle] h1 o1
  have o2: "open_streams ?s2 = 0" by (simp add: open_streams_def)
  have "dec ?s2 = dec s" using ul by (cases "dec s") simp
  then have v: "Value (dec s) pr = Some (Value_read ?t r, dec ?s2)"
    using Value_unlocked [OF ul, of pr] r by simp
  from st1 o1 st2 o2 v show ?thesis by blast
qed

lemma Value_is_one_step:
  assumes inv: "open_streams s = (if locker (dec s) then 1 else 0)"
    and free: "open_streams s = 0"
    and i: "i < length (pcs s)" and idle: "pcs s ! i = Idle"
    and e: "ti_Reader (info (kv pr)) = Inl e"
  shows "\<exists>s1. step s (Refused i (info (kv pr))) s1 \<and> open_streams s1 = 0
           \<and> Value (dec s) pr = Some (Inl (OpenFailed e), dec s1)"
proof -
  let ?t = "info (kv pr)"
  have ul: "\<not> locker (dec s)" using inv free by (simp split: if_splits)
  have rd: "Reader (dec s) ?t = Some (Inl (OpenFailed e), dec s)"
    using Reader_unlocked [OF ul, of ?t] e by simp
  have st: "step s (Refused i ?t) (s\<lparr>dec := dec s\<rparr>)" using i idle rd by (rule step.refused)
  have v: "Value (dec s) pr = Some (Inl (OpenFailed e), dec (s\<lparr>dec := dec s\<rparr>))"
    using Value_unlocked [OF ul, of pr] e by simp
  have "open_streams (s\<lparr>dec := dec s\<rparr>) = 0" using free by (simp add: open_streams_def)
  with st v show ?thesis by blast
qed

text \<open>
  C8. In every state that goroutines calling \<open>Value\<close> reach from a free gate:
  at most one stream is open; while one is open a call of \<open>Reader\<close>, and so of \<open>Value\<close>,
  does not return, and as soon as none is open it does; each goroutine has made one
  \<open>Close\<close> for every handle it was given, but for the one it still holds; the goroutine
  that holds a stream can always close it, alone, and then no stream is open and
  \<open>Reader\<close> returns for the next caller; and a call of \<open>Value\<close> at a free gate is the run
  of these steps: \<open>Reader\<close> returning an error, or \<open>Reader\<close> returning its handle, one
  stream open, then \<open>Close\<close>, with the decoder that \<open>Value\<close> returns.
\<close>

theorem gate_mutual_exclusion:
  assumes "run n tr s"
  shows "open_streams s \<le> 1
       \<and> (0 < open_streams s \<longrightarrow> Reader (dec s) t = None \<and> Value (dec s) pr = None)
       \<and> (open_streams s = 0 \<longrightarrow> Reader (dec s) t \<noteq> None \<and> Value (dec s) pr \<noteq> None)
       \<and> (\<forall>i < length (pcs s).
             opens_of i tr = closes_of i tr + (if pcs s ! i = Holding then 1 else 0))
       \<and> (\<forall>i < length (pcs s). pcs s ! i = Holding \<longrightarrow>
             (\<exists>s'. step s (Closed i) s' \<and> open_streams s' = 0 \<and> Reader (dec s') t \<noteq> None))
       \<and> (\<forall>i < length (pcs s). pcs s ! i = Idle \<and> open_streams s = 0 \<longrightarrow>
             (\<forall>e. ti_Reader (info (kv pr)) = Inl e \<longrightarrow>
                (\<exists>s1. step s (Refused i (info (kv pr))) s1 \<and> open_streams s1 = 0
                   \<and> Value (dec s) pr = Some (Inl (OpenFailed e), dec s1)))
             \<and> (\<forall>r. ti_Reader (info (kv pr)) = Inr r \<longrightarrow>
                (\<exists>s1 s2. step s (Opened i (info (kv pr))) s1 \<and> open_streams s1 = 1
                   \<and> step s1 (Closed i) s2 \<and> open_streams s2 = 0
                   \<and> Value (dec s) pr = Some (Value_read (info (kv pr)) r, dec s2))))"
proof -
  from run_gate_inv [OF assms] have
    inv: "open_streams s = (if locker (dec s) then 1 else 0)" and
    pair: "\<forall>i < length (pcs s).
             opens_of i tr = closes_of i tr + (if pcs s ! i = Holding then 1 else 0)"
    by (simp_all add: gate_inv_def)
  have one: "open_streams s \<le> 1" using inv by (simp split: if_splits)
  have blk: "Reader (dec s) t = None \<and> Value (dec s) pr = None" if "0 < open_streams s"
  proof -
    from that inv have "locker (dec s)" by (simp split: if_splits)
    then show ?thesis by (simp add: Reader_locked Value_locked)
  qed
  have ret: "Reader (dec s) t \<noteq> None \<and> Value (dec s) pr \<noteq> None" if "open_streams s = 0"
  proof -
    from that inv have ul: "\<not> locker (dec s)" by (simp split: if_splits)
    show ?thesis
      using Reader_unlocked [OF ul, of t] Value_unlocked [OF ul, of pr]
      by (simp split: sum.splits)
  qed
  have cl: "\<exists>s'. step s (Closed i) s' \<and> open_streams s' = 0 \<and> Reader (dec s') t \<noteq> None"
    if i: "i < length (pcs s)" and h: "pcs s ! i = Holding" for i
  proof -
    let ?s' = "s\<lparr>dec := (dec s)\<lparr>locker := False\<rparr>, pcs := (pcs s)[i := Idle]\<rparr>"
    have pos: "0 < open_streams s"
      unfolding open_streams_def using i h by (rule holding_counts)
    then have lk: "locker (dec s)" using inv by (simp split: if_splits)
    have st: "step s (Closed i) ?s'"
      using i h Close_locked [OF lk] by (rule step.closed)
    have "open_streams s = 1" using pos one by simp
    with count_update [OF i, of "\<lambda>p. p = Holding" Idle] h
    have z: "open_streams ?s' = 0" by (simp add: open_streams_def)
    have ul: "\<not> locker (dec ?s')" by simp
    have "Reader (dec ?s') t \<noteq> None"
      using Reader_unlocked [OF ul, of t] by (simp split: sum.splits)
    with st z show ?thesis by blast
  qed
  show ?thesis
  proof (intro conjI allI impI)
    show "open_streams s \<le> 1" by (rule one)
  next
    assume "0 < open_streams s"
    then show "Reader (dec s) t = None" using blk by simp
  next
    assume "0 < open_streams s"
    then show "Value (dec s) pr = None" using blk by simp
  next
    assume "open_streams s = 0"
    then show "Reader (dec s) t \<noteq> None" using ret by simp
  next
    assume "open_streams s = 0"
    then show "Value (dec s) pr \<noteq> None" using ret by simp
  next
    fix i assume "i < length (pcs s)"
    then show "opens_of i tr = closes_of i tr + (if pcs s ! i = Holding then 1 else 0)"
      using pair by simp
  next
    fix i assume "i < length (pcs s)" "pcs s ! i = Holding"
    then show "\<exists>s'. step s (Closed i) s' \<and> open_streams s' = 0 \<and> Reader (dec s') t \<noteq> None"
      by (rule cl)
  next
    fix i e
    assume i: "i < length (pcs s)" and a: "pcs s ! i = Idle \<and> open_streams s = 0"
      and e: "ti_Reader (info (kv pr)) = Inl e"
    from a have idle: "pcs s ! i = Idle" and free: "open_streams s = 0" by simp_all
    show "\<exists>s1. step s (Refused i (info (kv pr))) s1 \<and> open_streams s1 = 0
            \<and> Value (dec s) pr = Some (Inl (OpenFailed e), dec s1)"
      using inv free i idle e by (rule Value_is_one_step)
  next
    fix i r
    assume i: "i < length (pcs s)" and a: "pcs s ! i = Idle \<and> open_streams s = 0"
      and r: "ti_Reader (info (kv pr)) = Inr r"
    from a have idle: "pcs s ! i = Idle" and free: "open_streams s = 0" by simp_all
    show "\<exists>s1 s2. step s (Opened i (info (kv pr))) s1 \<and> open_streams s1 = 1
            \<and> step s1 (Closed i) s2 \<and> open_streams s2 = 0
            \<and> Value (dec s) pr = Some (Value_read (info (kv pr)) r, dec s2)"
      using inv free i idle r by (rule Value_is_two_steps)
  qed
qed

text \<open>
  Two goroutines and the tensor of 24 bytes. At the free gate a call of \<open>Value\<close> is the
  two steps of the first goroutine; after the first step its stream is open and the
  second goroutine's \<open>Reader\<close> and \<open>Value\<close> do not return.
\<close>

theorem gate_mutual_exclusion_witness:
  "run 2 [] \<lparr>dec = \<lparr>locker = False\<rparr>, pcs = [Idle, Idle]\<rparr>
   \<and> open_streams \<lparr>dec = \<lparr>locker = False\<rparr>, pcs = [Idle, Idle]\<rparr> = 0
   \<and> Reader \<lparr>locker = False\<rparr> tensor24 =
       Some (Inr \<lparr>bytes = bytes24, fails = None\<rparr>, \<lparr>locker = True\<rparr>)
   \<and> step \<lparr>dec = \<lparr>locker = False\<rparr>, pcs = [Idle, Idle]\<rparr> (Opened 0 tensor24)
           \<lparr>dec = \<lparr>locker = True\<rparr>, pcs = [Holding, Idle]\<rparr>
   \<and> run 2 [Opened 0 tensor24] \<lparr>dec = \<lparr>locker = True\<rparr>, pcs = [Holding, Idle]\<rparr>
   \<and> open_streams \<lparr>dec = \<lparr>locker = True\<rparr>, pcs = [Holding, Idle]\<rparr> = 1
   \<and> Reader \<lparr>locker = True\<rparr> tensor24 = None
   \<and> Value \<lparr>locker = True\<rparr> \<lparr>kv = entry [] tensor24\<rparr> = None
   \<and> opens_of 0 [Opened 0 tensor24] = 1 \<and> closes_of 0 [Opened 0 tensor24] = 0
   \<and> opens_of 1 [Opened 0 tensor24] = 0 \<and> closes_of 1 [Opened 0 tensor24] = 0
   \<and> step \<lparr>dec = \<lparr>locker = True\<rparr>, pcs = [Holding, Idle]\<rparr> (Closed 0)
           \<lparr>dec = \<lparr>locker = False\<rparr>, pcs = [Idle, Idle]\<rparr>
   \<and> Value \<lparr>locker = False\<rparr> \<lparr>kv = entry [] tensor24\<rparr> =
       Some (Value_read tensor24 \<lparr>bytes = bytes24, fails = None\<rparr>, \<lparr>locker = False\<rparr>)"
proof -
  let ?s0 = "\<lparr>dec = \<lparr>locker = False\<rparr>, pcs = [Idle, Idle]\<rparr>"
  let ?s1 = "\<lparr>dec = \<lparr>locker = True\<rparr>, pcs = [Holding, Idle]\<rparr>"
  let ?pr = "\<lparr>kv = entry [] tensor24\<rparr>"
  have i0: "init 2 = ?s0" by (simp add: init_def numeral_2_eq_2)
  have r0: "run 2 [] ?s0" using run.start [of 2] by (simp add: i0)
  have rd: "Reader (dec ?s0) tensor24 =
              Some (Inr \<lparr>bytes = bytes24, fails = None\<rparr>, \<lparr>locker = True\<rparr>)"
    by (simp add: Reader_def Lock_def tensor24_def)
  have "step ?s0 (Opened 0 tensor24) (?s0\<lparr>dec := \<lparr>locker = True\<rparr>, pcs := (pcs ?s0)[0 := Holding]\<rparr>)"
    by (rule step.opened [OF _ _ rd]) simp_all
  then have s01: "step ?s0 (Opened 0 tensor24) ?s1" by simp
  have r1: "run 2 [Opened 0 tensor24] ?s1"
    using run.later [OF r0 s01] by simp
  have "step ?s1 (Closed 0) (?s1\<lparr>dec := \<lparr>locker = False\<rparr>, pcs := (pcs ?s1)[0 := Idle]\<rparr>)"
    by (rule step.closed) (simp_all add: Close_def Unlock_def)
  then have s10: "step ?s1 (Closed 0) ?s0" by simp
  have o0: "open_streams ?s0 = 0" and o1: "open_streams ?s1 = 1"
    by (simp_all add: open_streams_def)
  have tr: "ti_Reader (info (kv ?pr)) = Inr \<lparr>bytes = bytes24, fails = None\<rparr>"
    by (simp add: entry_def tensor24_def)
  note g0 = gate_mutual_exclusion [OF r0, of tensor24 ?pr]
  note g1 = gate_mutual_exclusion [OF r1, of tensor24 ?pr]
  from g1 o1 have blocked: "Reader (dec ?s1) tensor24 = None" "Value (dec ?s1) ?pr = None"
    by simp_all
  from g1 have pairs:
    "opens_of 0 [Opened 0 tensor24] = closes_of 0 [Opened 0 tensor24] + 1"
    "opens_of 1 [Opened 0 tensor24] = closes_of 1 [Opened 0 tensor24]"
    by simp_all
  have c: "closes_of 0 [Opened 0 tensor24] = 0" "closes_of 1 [Opened 0 tensor24] = 0"
    by (simp_all add: closes_of_def)
  from g0 o0 tr have "\<exists>s1 s2. step ?s0 (Opened 0 (info (kv ?pr))) s1 \<and> open_streams s1 = 1
      \<and> step s1 (Closed 0) s2 \<and> open_streams s2 = 0
      \<and> Value (dec ?s0) ?pr =
          Some (Value_read (info (kv ?pr)) \<lparr>bytes = bytes24, fails = None\<rparr>, dec s2)"
    by simp
  then obtain s1 s2 where
    cl: "step s1 (Closed 0) s2" and
    v: "Value (dec ?s0) ?pr =
          Some (Value_read (info (kv ?pr)) \<lparr>bytes = bytes24, fails = None\<rparr>, dec s2)"
    by blast
  from cl have "dec s2 = \<lparr>locker = False\<rparr>"
    by (cases rule: step.cases) (auto dest: Close_returns)
  with v have val: "Value \<lparr>locker = False\<rparr> ?pr =
       Some (Value_read tensor24 \<lparr>bytes = bytes24, fails = None\<rparr>, \<lparr>locker = False\<rparr>)"
    by (simp add: entry_def)
  show ?thesis
    using r0 o0 rd s01 r1 o1 blocked pairs c s10 val by simp
qed

end
